theory Spec2Isabelle
  imports Main "HOL-Library.Word" "HOL-Library.Multiset"
begin

unbundle bit_operations_syntax

section \<open>Basic chess types\<close>

text \<open>
  The headers \<^verbatim>\<open>chess.h\<close>, \<^verbatim>\<open>move.h\<close>, \<^verbatim>\<open>position.h\<close>, \<^verbatim>\<open>evaluate.h\<close> and
  \<^verbatim>\<open>utils.h\<close> are not part of the sources at hand. Their types are modelled by
  the datatypes below; their constants, tables and member functions are taken as
  parameters (fields of the records \<open>Chess\<close>, \<open>Position\<close> and \<open>PositionOps\<close>).
\<close>

datatype Side = WHITE | BLACK

fun flipSide :: "Side \<Rightarrow> Side" where
  "flipSide WHITE = BLACK"
| "flipSide BLACK = WHITE"

datatype PieceType = NO_PIECE_TYPE | PAWN | KNIGHT | BISHOP | ROOK | QUEEN | KING

datatype Piece = NO_PIECE | makePiece Side PieceType

fun pieceType :: "Piece \<Rightarrow> PieceType" where
  "pieceType NO_PIECE = NO_PIECE_TYPE"
| "pieceType (makePiece s pt) = pt"

type_synonym Square = nat

datatype MoveType = NORMAL | PROMOTION | EN_PASSANT | CASTLING

text \<open>
  A move carries its origin, its destination and its kind; \<open>MOVE_NONE\<close> is the
  sentinel. The accessors are total; on the sentinel they return the fields of the
  all-zero encoding.
\<close>

datatype Move = MOVE_NONE | makeMove Square Square MoveType

fun moveFrom :: "Move \<Rightarrow> Square" where
  "moveFrom MOVE_NONE = 0"
| "moveFrom (makeMove f t ty) = f"

fun moveTo :: "Move \<Rightarrow> Square" where
  "moveTo MOVE_NONE = 0"
| "moveTo (makeMove f t ty) = t"

fun moveType :: "Move \<Rightarrow> MoveType" where
  "moveType MOVE_NONE = NORMAL"
| "moveType (makeMove f t ty) = ty"

section \<open>engine.h: search limits and search data\<close>

text \<open>
  \<open>TimeMs\<close> is a signed millisecond count; \<open>size_t\<close> counters are natural numbers
  (the functions below only compare them and take them modulo 1024).
  The arrays \<open>timeLeft[NB_SIDE]\<close> and \<open>increment[NB_SIDE]\<close> are functions of the side.
\<close>

type_synonym TimeMs = int

record SearchLimits =
  timeLeft :: "Side \<Rightarrow> TimeMs"
  increment :: "Side \<Rightarrow> TimeMs"
  movesToGo :: int
  maxDepth :: int
  maxNodes :: nat
  maxTime :: TimeMs
  searchMoves :: "Move list"

text \<open>
  \<open>killerMoves[MAX_PLY][2]\<close> is a list of \<open>MAX_PLY\<close> pairs (slot 0, slot 1).
  The fields \<open>position\<close>, \<open>lastCheck\<close> and \<open>counterMoves\<close> of \<open>SearchData\<close> are not
  read or written by the functions modelled here.
\<close>

record SearchData =
  limits :: SearchLimits
  nbNodes :: nat
  startTime :: TimeMs
  allocatedTime :: TimeMs
  killerMoves :: "(Move \<times> Move) list"

definition useTournamentTime :: "SearchData \<Rightarrow> bool" where
  "useTournamentTime sd \<longleftrightarrow> (timeLeft (limits sd) WHITE OR timeLeft (limits sd) WHITE) \<noteq> 0"

definition useFixedTime :: "SearchData \<Rightarrow> bool" where
  "useFixedTime sd \<longleftrightarrow> maxTime (limits sd) > 0"

text \<open>
  \<open>useTimeLimit\<close> calls itself in the right operand of \<open>||\<close>: the call returns
  \<open>true\<close> when \<open>useTournamentTime()\<close> holds and recurses otherwise. \<open>None\<close> is
  "does not return".
\<close>

partial_function (option) useTimeLimit :: "SearchData \<Rightarrow> bool option" where
  "useTimeLimit sd = (if useTournamentTime sd then Some True else useTimeLimit sd)"

definition useNodeCountLimit :: "SearchData \<Rightarrow> bool" where
  "useNodeCountLimit sd \<longleftrightarrow> maxNodes (limits sd) > 0"

text \<open>The clock \<open>now()\<close> is read once; its value is the second argument.\<close>

definition shouldStop :: "SearchData \<Rightarrow> TimeMs \<Rightarrow> bool" where
  "shouldStop sd now =
     (if nbNodes sd mod 1024 \<noteq> 0 then False
      else let elapsed = now - startTime sd in
        if useTournamentTime sd \<and> elapsed \<ge> allocatedTime sd then True
        else if useFixedTime sd \<and> elapsed > maxTime (limits sd) then True
        else if useNodeCountLimit sd \<and> nbNodes sd \<ge> maxNodes (limits sd) then True
        else False)"

text \<open>
  \<open>updateKillers\<close> writes \<open>killerMoves[ply]\<close>; an index outside \<open>[0, MAX_PLY)\<close> is
  undefined behaviour in the source and \<open>None\<close> here.
\<close>

definition updateKillers :: "Move \<Rightarrow> int \<Rightarrow> SearchData \<Rightarrow> SearchData option" where
  "updateKillers m ply sd =
     (if 0 \<le> ply \<and> nat ply < length (killerMoves sd) then
        (let k = killerMoves sd ! nat ply in
           if fst k \<noteq> m
           then Some (sd\<lparr>killerMoves := (killerMoves sd)[nat ply := (m, fst k)]\<rparr>)
           else Some sd)
      else None)"

text \<open>Invariant 2 of the data model, at one ply.\<close>

definition killersDistinct :: "SearchData \<Rightarrow> nat \<Rightarrow> bool" where
  "killersDistinct sd p \<longleftrightarrow>
     (let k = killerMoves sd ! p in fst k = MOVE_NONE \<or> snd k = MOVE_NONE \<or> fst k \<noteq> snd k)"

section \<open>perft.cpp\<close>

text \<open>
  \<open>perft\<close> changes the position it is given, by the \<open>doMove\<close> and \<open>undoMove\<close> handlers
  that the move generator passes with each move, and the divide variant prints one
  line per root move. The model works on any type \<open>'p\<close> of positions with the four
  operations of \<open>PositionOps\<close>, returns the position as it is left, and lists the
  calls of the handlers and the printed lines in order. \<open>legalMovesOf Me pos\<close> is
  the sequence of moves that \<open>enumerateLegalMoves<Me>\<close> passes to its callback; it is
  read from the position on entry, which is the position at every callback when each
  callback leaves the position as it found it. The \<open>size_t\<close> node counts are natural
  numbers.
\<close>

datatype PerftEvent = DoMove Move | UndoMove Move | Print Move nat

record 'p PositionOps =
  getSideToMove :: "'p \<Rightarrow> Side"
  legalMovesOf :: "Side \<Rightarrow> 'p \<Rightarrow> Move list"
  doMove :: "Side \<Rightarrow> 'p \<Rightarrow> Move \<Rightarrow> 'p"
  undoMove :: "Side \<Rightarrow> 'p \<Rightarrow> Move \<Rightarrow> 'p"

text \<open>
  \<open>perft<Div, Me>(pos, depth)\<close>: the node total, the position afterwards, the events.
\<close>

function perft :: "'p PositionOps \<Rightarrow> bool \<Rightarrow> Side \<Rightarrow> 'p \<Rightarrow> int \<Rightarrow> nat \<times> 'p \<times> PerftEvent list" where
  "perft ops Div Me pos depth =
     (if \<not> Div \<and> depth \<le> 1 then
        (fold (\<lambda>m total. total + 1) (legalMovesOf ops Me pos) 0, pos, [])
      else
        fold (\<lambda>m (total, p, out).
            let (n, p', out') =
                  (if Div \<and> depth = 1 then (1, p, out)
                   else
                     let p1 = doMove ops Me p m;
                         (n, p2, out2) =
                            (if depth = 1 then (1, p1, [])
                             else perft ops False (flipSide Me) p1 (depth - 1));
                         p3 = undoMove ops Me p2 m
                     in (n, p3, out @ [DoMove m] @ out2 @ [UndoMove m]));
                out'' = (if Div \<and> n > 0 then out' @ [Print m n] else out')
            in (total + n, p', out''))
          (legalMovesOf ops Me pos) (0, pos, []))"
  by pat_completeness auto
termination
  by (relation "measure (\<lambda>(ops, Div, Me, pos, depth). (if Div then 1 else 0) + nat (depth - 1))") auto

declare perft.simps [simp del]

text \<open>\<open>perft<Div>(pos, depth)\<close>, which picks the instance of the side to move.\<close>

definition perftSide :: "'p PositionOps \<Rightarrow> bool \<Rightarrow> 'p \<Rightarrow> int \<Rightarrow> nat \<times> 'p \<times> PerftEvent list" where
  "perftSide ops Div pos depth =
     (if getSideToMove ops pos = WHITE then perft ops Div WHITE pos depth
      else perft ops Div BLACK pos depth)"

text \<open>The contract of \<open>Position\<close>: \<open>undoMove\<close> undoes \<open>doMove\<close> of a legal move.\<close>

definition undoInvertsDo :: "'p PositionOps \<Rightarrow> bool" where
  "undoInvertsDo ops \<longleftrightarrow>
     (\<forall>s p m. m \<in> set (legalMovesOf ops s p) \<longrightarrow> undoMove ops s (doMove ops s p m) m = p)"

section \<open>movepicker.h\<close>

subsection \<open>What the move picker uses of chess.h, position.h and evaluate.h\<close>

text \<open>
  A \<open>Bitboard\<close> is a 64-bit word, one bit per square; \<open>bb(sq)\<close> is the bit of a
  square, and the mixed operators \<open>Bitboard & Square\<close> test that bit.
\<close>

type_synonym Bitboard = "64 word"

definition bb :: "Square \<Rightarrow> Bitboard" where
  "bb sq = push_bit sq 1"

datatype MoveGenType = QUIET_MOVES | TACTICAL_MOVES | ALL_MOVES

text \<open>
  Constants and tables: \<open>NB_PIECE_TYPE\<close>, the integer value \<open>(int)pt\<close> of a piece
  type, \<open>PieceValue<MG>\<close>, \<open>pawnAttacks<Side>\<close> and \<open>attacks<PieceType>\<close>.
\<close>

record Chess =
  NB_PIECE_TYPE :: int
  pieceTypeIndex :: "PieceType \<Rightarrow> int"
  PieceValueMG :: "Piece \<Rightarrow> int"
  pawnAttacks :: "Side \<Rightarrow> Bitboard \<Rightarrow> Bitboard"
  attacks :: "PieceType \<Rightarrow> Square \<Rightarrow> Bitboard \<Rightarrow> Bitboard"

text \<open>
  The picker holds the position by \<open>const\<close> reference and only observes it. Each field
  is one observer of \<open>Position\<close>: \<open>getPiecesBB\<close> is the argument-free overload (all
  pieces), \<open>getPiecesBBof\<close> the overload \<open>getPiecesBB(side, pt)\<close>, and
  \<open>enumerateLegalMoves Me T\<close> lists the moves that \<open>enumerateLegalMoves<Me, T>\<close> passes
  to its callback, in that order (every callback of the picker returns \<open>true\<close>).
\<close>

record Position =
  inCheck :: bool
  isLegal :: "Side \<Rightarrow> Move \<Rightarrow> bool"
  isCapture :: "Move \<Rightarrow> bool"
  isTactical :: "Move \<Rightarrow> bool"
  see :: "Move \<Rightarrow> int \<Rightarrow> bool"
  getPieceAt :: "Square \<Rightarrow> Piece"
  getPiecesBB :: Bitboard
  getPiecesBBof :: "Side \<Rightarrow> PieceType \<Rightarrow> Bitboard"
  threatenedByPawns :: Bitboard
  threatenedByMinors :: Bitboard
  threatenedByRooks :: Bitboard
  enumerateLegalMoves :: "Side \<Rightarrow> MoveGenType \<Rightarrow> Move list"

subsection \<open>Scores\<close>

text \<open>
  \<open>ScoredMove\<close> without its two member-function pointers, which are always
  \<open>doMove<Me>\<close> and \<open>undoMove<Me>\<close> and are only handed on to the handler.
  The scoring functions return \<open>int16_t\<close>: \<open>toInt16\<close> is the conversion of the
  \<open>int\<close> result.
\<close>

record ScoredMove =
  move :: Move
  score :: int

definition toInt16 :: "int \<Rightarrow> int" where
  "toInt16 x = sint (word_of_int x :: 16 word)"

definition scoreTactical :: "Chess \<Rightarrow> Position \<Rightarrow> Move \<Rightarrow> int" where
  "scoreTactical ch pos m =
     toInt16 (PieceValueMG ch (getPieceAt pos (moveTo m))
              - pieceTypeIndex ch (pieceType (getPieceAt pos (moveFrom m))))"

definition scoreEvasion :: "Chess \<Rightarrow> Position \<Rightarrow> Move \<Rightarrow> int" where
  "scoreEvasion ch pos m = (if isCapture pos m then scoreTactical ch pos m else 0)"

text \<open>
  One \<open>case\<close> body of the switch in \<open>scoreQuiet\<close>: 10 when \<open>attacks<pt>\<close> from the
  destination meets the enemy king, else 0.
\<close>

definition kingHit :: "Chess \<Rightarrow> Side \<Rightarrow> Position \<Rightarrow> PieceType \<Rightarrow> Square \<Rightarrow> int" where
  "kingHit ch Me pos pt to =
     (if attacks ch pt to (getPiecesBB pos) AND getPiecesBBof pos (flipSide Me) KING \<noteq> 0
      then 10 else 0)"

text \<open>
  \<open>scoreQuiet\<close> reads the member \<open>threatenedPieces\<close>, set by \<open>enumerate\<close> before the
  first call: it is the fourth argument. In the switch, \<open>PAWN\<close> and \<open>KNIGHT\<close> end
  with \<open>break\<close>; \<open>BISHOP\<close> runs on into \<open>ROOK\<close> and \<open>QUEEN\<close>, and \<open>ROOK\<close> into \<open>QUEEN\<close>.
\<close>

definition scoreQuiet :: "Chess \<Rightarrow> Side \<Rightarrow> Position \<Rightarrow> Bitboard \<Rightarrow> Move \<Rightarrow> int" where
  "scoreQuiet ch Me pos threatenedPieces m =
     (let from = moveFrom m; to = moveTo m;
          pt = pieceType (getPieceAt pos from);
          score0 = NB_PIECE_TYPE ch - pieceTypeIndex ch pt
      in
        if moveType m = PROMOTION then toInt16 (- 100)
        else
          let score1 =
                (if threatenedPieces AND bb from \<noteq> 0 then
                   score0 +
                     (if pt = QUEEN \<and> \<not> (bb to AND threatenedByRooks pos \<noteq> 0) then 1000
                      else if pt = ROOK \<and> \<not> (bb to AND threatenedByMinors pos \<noteq> 0) then 500
                      else if (pt = BISHOP \<or> pt = KNIGHT)
                              \<and> \<not> (bb to AND threatenedByPawns pos \<noteq> 0) then 300
                      else 0)
                 else score0);
              score2 =
                (case pt of
                   PAWN \<Rightarrow>
                     score1 + (if pawnAttacks ch Me (bb to) AND getPiecesBBof pos (flipSide Me) KING \<noteq> 0
                               then 10 else 0)
                 | KNIGHT \<Rightarrow> score1 + kingHit ch Me pos KNIGHT to
                 | BISHOP \<Rightarrow>
                     score1 + kingHit ch Me pos BISHOP to + kingHit ch Me pos ROOK to
                       + kingHit ch Me pos QUEEN to
                 | ROOK \<Rightarrow> score1 + kingHit ch Me pos ROOK to + kingHit ch Me pos QUEEN to
                 | QUEEN \<Rightarrow> score1 + kingHit ch Me pos QUEEN to
                 | _ \<Rightarrow> score1)
          in toInt16 score2)"

subsection \<open>The handler and the loops that call it\<close>

text \<open>
  The handler is a closure of the search: it takes a move, may change the state \<open>'st\<close>
  of its captured variables, and returns \<open>true\<close> to go on or \<open>false\<close> to stop.
  It makes and unmakes the move on the position, which it leaves as it found it.
\<close>

type_synonym 'st Handler = "Move \<Rightarrow> 'st \<Rightarrow> bool \<times> 'st"

text \<open>\<open>if (!handler(...)) return false;\<close> followed by the rest \<open>k\<close> of the function.\<close>

definition andThen :: "bool \<times> 'st \<Rightarrow> ('st \<Rightarrow> bool \<times> 'st) \<Rightarrow> bool \<times> 'st" where
  "andThen r k = (if fst r then k (snd r) else (False, snd r))"

text \<open>
  A loop \<open>for (m : range) if (!handler(m)) return false;\<close> over the moves of a range:
  \<open>True\<close> when it ran to the end.
\<close>

fun yieldMoves :: "'st Handler \<Rightarrow> Move list \<Rightarrow> 'st \<Rightarrow> bool \<times> 'st" where
  "yieldMoves handler [] s = (True, s)"
| "yieldMoves handler (m # ms) s = andThen (handler m s) (yieldMoves handler ms)"

text \<open>
  \<open>std::sort\<close> with the comparator \<open>a.score > b.score\<close> is a parameter \<open>srt\<close> of the
  model: it returns some permutation of its input in which no later element has a
  greater score than an earlier one. The order of equal scores is not fixed.
\<close>

definition sortsByScore :: "(ScoredMove list \<Rightarrow> ScoredMove list) \<Rightarrow> bool" where
  "sortsByScore srt \<longleftrightarrow>
     (\<forall>xs. mset (srt xs) = mset xs \<and> sorted_wrt (\<lambda>a b. score a \<ge> score b) (srt xs))"

datatype MovePickerType = MAIN | QUIESCENCE

subsection \<open>The stages of enumerate\<close>

text \<open>
  Evasions: the list after the \<open>std::sort\<close> of the in-check branch.
\<close>

definition evasionMoves ::
  "(ScoredMove list \<Rightarrow> ScoredMove list) \<Rightarrow> Chess \<Rightarrow> Side \<Rightarrow> Position \<Rightarrow> Move \<Rightarrow> ScoredMove list" where
  "evasionMoves srt ch Me pos ttMove =
     srt (map (\<lambda>m. \<lparr>move = m, score = scoreEvasion ch pos m\<rparr>)
            (filter (\<lambda>m. m \<noteq> ttMove) (enumerateLegalMoves pos Me ALL_MOVES)))"

text \<open>
  Tacticals: the list after the first \<open>std::sort\<close> outside check. In \<open>QUIESCENCE\<close>
  the callback drops a move that fails \<open>see(m, 0)\<close>.
\<close>

definition tacticalMoves ::
  "(ScoredMove list \<Rightarrow> ScoredMove list) \<Rightarrow> Chess \<Rightarrow> MovePickerType \<Rightarrow> Side \<Rightarrow> Position \<Rightarrow> Move
     \<Rightarrow> ScoredMove list" where
  "tacticalMoves srt ch Type Me pos ttMove =
     srt (map (\<lambda>m. \<lparr>move = m, score = scoreTactical ch pos m\<rparr>)
            (filter (\<lambda>m. m \<noteq> ttMove \<and> (if Type = QUIESCENCE then see pos m 0 else True))
               (enumerateLegalMoves pos Me TACTICAL_MOVES)))"

text \<open>
  The "Good tacticals" loop: in \<open>MAIN\<close> a move that fails \<open>see(move, -50)\<close> is copied
  to the front of the list (up to \<open>endBadTacticals\<close>) and not yielded; in
  \<open>QUIESCENCE\<close> every move is yielded and \<open>endBadTacticals\<close> stays at the start.
\<close>

definition goodTacticals :: "MovePickerType \<Rightarrow> Position \<Rightarrow> ScoredMove list \<Rightarrow> ScoredMove list" where
  "goodTacticals Type pos moves =
     (if Type = MAIN then filter (\<lambda>sm. see pos (move sm) (- 50)) moves else moves)"

definition badTacticals :: "MovePickerType \<Rightarrow> Position \<Rightarrow> ScoredMove list \<Rightarrow> ScoredMove list" where
  "badTacticals Type pos moves =
     (if Type = MAIN then filter (\<lambda>sm. \<not> see pos (move sm) (- 50)) moves else [])"

definition threatenedPiecesOf :: "Side \<Rightarrow> Position \<Rightarrow> Bitboard" where
  "threatenedPiecesOf Me pos =
     (((getPiecesBBof pos Me KNIGHT OR getPiecesBBof pos Me BISHOP) AND threatenedByPawns pos)
      OR (getPiecesBBof pos Me ROOK AND threatenedByMinors pos)
      OR (getPiecesBBof pos Me QUEEN AND threatenedByRooks pos))"

text \<open>
  Quiets: \<open>moves.resize\<close> keeps the bad tacticals \<open>bad\<close>, the callback appends the
  scored quiet moves that are neither the TT move nor a refutation, and \<open>std::sort\<close>
  runs from \<open>moves.begin()\<close> to \<open>moves.end()\<close>. The result is the list afterwards.
\<close>

definition quietMoves ::
  "(ScoredMove list \<Rightarrow> ScoredMove list) \<Rightarrow> Chess \<Rightarrow> Side \<Rightarrow> Position \<Rightarrow> Move \<Rightarrow> Move \<Rightarrow> Move \<Rightarrow> Move
     \<Rightarrow> ScoredMove list \<Rightarrow> ScoredMove list" where
  "quietMoves srt ch Me pos ttMove killer1 killer2 counter bad =
     srt (bad @
          map (\<lambda>m. \<lparr>move = m, score = scoreQuiet ch Me pos (threatenedPiecesOf Me pos) m\<rparr>)
            (filter (\<lambda>m. m \<noteq> ttMove \<and> \<not> (killer1 = m \<or> killer2 = m \<or> counter = m))
               (enumerateLegalMoves pos Me QUIET_MOVES)))"

text \<open>
  The last three loops, over a list \<open>moves\<close> whose first \<open>nBad\<close> places end at
  \<open>endBadTacticals\<close>. "Good quiets" runs from \<open>endBadTacticals\<close> to the end, yields
  the moves of score at least 0 and copies the others down to
  \<open>[beginQuiets, endBadQuiets)\<close>; "Bad tacticals" runs over the first \<open>nBad\<close> places;
  "Bad quiets" over \<open>[beginQuiets, endBadQuiets)\<close>.
\<close>

definition goodQuietsLoop :: "nat \<Rightarrow> ScoredMove list \<Rightarrow> ScoredMove list" where
  "goodQuietsLoop nBad moves = filter (\<lambda>sm. \<not> score sm < 0) (drop nBad moves)"

definition badTacticalsLoop :: "nat \<Rightarrow> ScoredMove list \<Rightarrow> ScoredMove list" where
  "badTacticalsLoop nBad moves = take nBad moves"

definition badQuietsLoop :: "nat \<Rightarrow> ScoredMove list \<Rightarrow> ScoredMove list" where
  "badQuietsLoop nBad moves = filter (\<lambda>sm. score sm < 0) (drop nBad moves)"

subsection \<open>enumerate\<close>

definition enumerate ::
  "(ScoredMove list \<Rightarrow> ScoredMove list) \<Rightarrow> Chess \<Rightarrow> MovePickerType \<Rightarrow> Side \<Rightarrow> Position
     \<Rightarrow> Move \<Rightarrow> Move \<Rightarrow> Move \<Rightarrow> Move \<Rightarrow> 'st Handler \<Rightarrow> 'st \<Rightarrow> bool \<times> 'st" where
  "enumerate srt ch Type Me pos ttMove killer1 killer2 counter handler s0 =
     andThen (if isLegal pos Me ttMove then handler ttMove s0 else (True, s0)) (\<lambda>s1.
       if inCheck pos then
         yieldMoves handler
           (filter (\<lambda>m. m \<noteq> ttMove) (map move (evasionMoves srt ch Me pos ttMove))) s1
       else
         let moves = tacticalMoves srt ch Type Me pos ttMove;
             bad = badTacticals Type pos moves
         in
         andThen (yieldMoves handler (map move (goodTacticals Type pos moves)) s1) (\<lambda>s2.
           if Type = QUIESCENCE then (True, s2)
           else
             andThen (if killer1 \<noteq> ttMove \<and> \<not> isTactical pos killer1 \<and> isLegal pos Me killer1
                      then handler killer1 s2 else (True, s2)) (\<lambda>s3.
             andThen (if killer2 \<noteq> ttMove \<and> \<not> isTactical pos killer2 \<and> isLegal pos Me killer2
                      then handler killer2 s3 else (True, s3)) (\<lambda>s4.
             andThen (if counter \<noteq> ttMove \<and> \<not> isTactical pos counter \<and> counter \<noteq> killer1
                         \<and> counter \<noteq> killer2 \<and> isLegal pos Me counter
                      then handler counter s4 else (True, s4)) (\<lambda>s5.
               let moves2 = quietMoves srt ch Me pos ttMove killer1 killer2 counter bad;
                   nBad = length bad
               in
               andThen (yieldMoves handler (map move (goodQuietsLoop nBad moves2)) s5) (\<lambda>s6.
               andThen (yieldMoves handler (map move (badTacticalsLoop nBad moves2)) s6) (\<lambda>s7.
                 yieldMoves handler (map move (badQuietsLoop nBad moves2)) s7)))))))"

text \<open>
  A handler that also records, in order, the moves it is called with.
\<close>

definition logged :: "'st Handler \<Rightarrow> ('st \<times> Move list) Handler" where
  "logged handler m = (\<lambda>(s, log). let (b, s') = handler m s in (b, (s', log @ [m])))"

text \<open>
  The moves of a whole enumeration (a handler that never stops), stage by stage.
\<close>

definition refutationMoves :: "Side \<Rightarrow> Position \<Rightarrow> Move \<Rightarrow> Move \<Rightarrow> Move \<Rightarrow> Move \<Rightarrow> Move list" where
  "refutationMoves Me pos ttMove killer1 killer2 counter =
     (if killer1 \<noteq> ttMove \<and> \<not> isTactical pos killer1 \<and> isLegal pos Me killer1
      then [killer1] else [])
     @ (if killer2 \<noteq> ttMove \<and> \<not> isTactical pos killer2 \<and> isLegal pos Me killer2
        then [killer2] else [])
     @ (if counter \<noteq> ttMove \<and> \<not> isTactical pos counter \<and> counter \<noteq> killer1
           \<and> counter \<noteq> killer2 \<and> isLegal pos Me counter
        then [counter] else [])"

definition pickerOrder ::
  "(ScoredMove list \<Rightarrow> ScoredMove list) \<Rightarrow> Chess \<Rightarrow> MovePickerType \<Rightarrow> Side \<Rightarrow> Position
     \<Rightarrow> Move \<Rightarrow> Move \<Rightarrow> Move \<Rightarrow> Move \<Rightarrow> Move list" where
  "pickerOrder srt ch Type Me pos ttMove killer1 killer2 counter =
     (if isLegal pos Me ttMove then [ttMove] else [])
     @ (if inCheck pos then
          filter (\<lambda>m. m \<noteq> ttMove) (map move (evasionMoves srt ch Me pos ttMove))
        else
          let moves = tacticalMoves srt ch Type Me pos ttMove;
              bad = badTacticals Type pos moves
          in map move (goodTacticals Type pos moves)
             @ (if Type = QUIESCENCE then []
                else
                  let moves2 = quietMoves srt ch Me pos ttMove killer1 killer2 counter bad;
                      nBad = length bad
                  in refutationMoves Me pos ttMove killer1 killer2 counter
                     @ map move (goodQuietsLoop nBad moves2)
                     @ map move (badTacticalsLoop nBad moves2)
                     @ map move (badQuietsLoop nBad moves2)))"

text \<open>
  The generated tactical and quiet moves that the callbacks of \<open>enumerate\<close> keep in
  \<open>MAIN\<close> mode.
\<close>

definition tacticalGen :: "Side \<Rightarrow> Position \<Rightarrow> Move \<Rightarrow> Move list" where
  "tacticalGen Me pos ttMove = filter (\<lambda>m. m \<noteq> ttMove) (enumerateLegalMoves pos Me TACTICAL_MOVES)"

definition quietGen :: "Side \<Rightarrow> Position \<Rightarrow> Move \<Rightarrow> Move \<Rightarrow> Move \<Rightarrow> Move \<Rightarrow> Move list" where
  "quietGen Me pos ttMove killer1 killer2 counter =
     filter (\<lambda>m. m \<noteq> ttMove \<and> \<not> (killer1 = m \<or> killer2 = m \<or> counter = m))
       (enumerateLegalMoves pos Me QUIET_MOVES)"

text \<open>
  What the picker relies on in the move generator and in \<open>isLegal\<close>: no list holds
  a move twice, a generated tactical move is tactical for \<open>isTactical\<close>, no move is
  generated both as tactical and as quiet, and the sentinel is not a legal move.
\<close>

definition generatorDistinct :: "Side \<Rightarrow> Position \<Rightarrow> bool" where
  "generatorDistinct Me pos \<longleftrightarrow>
     distinct (enumerateLegalMoves pos Me ALL_MOVES)
     \<and> distinct (enumerateLegalMoves pos Me TACTICAL_MOVES)
     \<and> distinct (enumerateLegalMoves pos Me QUIET_MOVES)
     \<and> (\<forall>m \<in> set (enumerateLegalMoves pos Me TACTICAL_MOVES). isTactical pos m)
     \<and> set (enumerateLegalMoves pos Me TACTICAL_MOVES)
         \<inter> set (enumerateLegalMoves pos Me QUIET_MOVES) = {}
     \<and> \<not> isLegal pos Me MOVE_NONE"


subsection \<open>Sample search data\<close>

text \<open>
  All limits zero, no node searched, two plies of empty killers; then the same with a
  fixed time of 100 ms, with 60 s on Black's clock only, and with one killer at ply 1.
\<close>

definition noLimits :: SearchLimits where
  "noLimits = \<lparr>timeLeft = (\<lambda>s. 0), increment = (\<lambda>s. 0), movesToGo = 0, maxDepth = 0,
     maxNodes = 0, maxTime = 0, searchMoves = []\<rparr>"

definition sd0 :: SearchData where
  "sd0 = \<lparr>limits = noLimits, nbNodes = 0, startTime = 0, allocatedTime = 0,
     killerMoves = [(MOVE_NONE, MOVE_NONE), (MOVE_NONE, MOVE_NONE)]\<rparr>"

definition sdFixed :: SearchData where
  "sdFixed = sd0\<lparr>limits := noLimits\<lparr>maxTime := 100\<rparr>\<rparr>"

definition sdBlackClock :: SearchData where
  "sdBlackClock = sd0\<lparr>limits := noLimits\<lparr>timeLeft := (\<lambda>s. if s = BLACK then 60000 else 0)\<rparr>\<rparr>"

definition e2e4 :: Move where "e2e4 = makeMove 12 28 NORMAL"
definition g1f3 :: Move where "g1f3 = makeMove 6 21 NORMAL"

definition sdKillers :: SearchData where
  "sdKillers = sd0\<lparr>killerMoves := [(MOVE_NONE, MOVE_NONE), (e2e4, MOVE_NONE)]\<rparr>"

text \<open>
  A small game for \<open>perft\<close>: a position is the stack of the moves made; two moves are
  legal in each of the first two plies and one move afterwards.
\<close>

definition stackGame :: "(Move list) PositionOps" where
  "stackGame = \<lparr>getSideToMove = (\<lambda>p. if even (length p) then WHITE else BLACK),
      legalMovesOf = (\<lambda>s p. if length p < 2 then [e2e4, g1f3] else [e2e4]),
      doMove = (\<lambda>s p m. m # p),
      undoMove = (\<lambda>s p m. tl p)\<rparr>"

subsection \<open>Sample parameters for the move picker\<close>

text \<open>
  Squares are numbered \<open>a1 = 0\<close>, \<open>b1 = 1\<close>, \<dots>, \<open>h8 = 63\<close>. Piece types count from
  \<open>PAWN = 1\<close> to \<open>KING = 6\<close> with \<open>NB_PIECE_TYPE = 7\<close>; a pawn is worth 100, a knight
  320, a bishop 330, a rook 500 and a queen 900. The attack tables follow the rules
  of chess: a slider attacks along its lines up to and including the first occupied
  square.
\<close>

definition onBoard :: "int \<Rightarrow> int \<Rightarrow> bool" where
  "onBoard f r \<longleftrightarrow> 0 \<le> f \<and> f < 8 \<and> 0 \<le> r \<and> r < 8"

definition sqOf :: "int \<Rightarrow> int \<Rightarrow> Square" where
  "sqOf f r = nat (r * 8 + f)"

definition rayAttacks :: "int \<Rightarrow> int \<Rightarrow> Square \<Rightarrow> Bitboard \<Rightarrow> Bitboard" where
  "rayAttacks df dr sq occ =
     foldr (\<lambda>k rest.
        let f = int (sq mod 8) + k * df; r = int (sq div 8) + k * dr in
        if onBoard f r
        then bb (sqOf f r) OR (if bb (sqOf f r) AND occ \<noteq> 0 then 0 else rest)
        else 0)
       [1, 2, 3, 4, 5, 6, 7] 0"

definition stepAttacks :: "(int \<times> int) list \<Rightarrow> Square \<Rightarrow> Bitboard" where
  "stepAttacks steps sq =
     foldr (\<lambda>(df, dr) rest.
        let f = int (sq mod 8) + df; r = int (sq div 8) + dr in
        if onBoard f r then bb (sqOf f r) OR rest else rest)
       steps 0"

definition sampleAttacks :: "PieceType \<Rightarrow> Square \<Rightarrow> Bitboard \<Rightarrow> Bitboard" where
  "sampleAttacks pt sq occ =
     (let rook = rayAttacks 1 0 sq occ OR rayAttacks (- 1) 0 sq occ
                 OR rayAttacks 0 1 sq occ OR rayAttacks 0 (- 1) sq occ;
          bishop = rayAttacks 1 1 sq occ OR rayAttacks 1 (- 1) sq occ
                   OR rayAttacks (- 1) 1 sq occ OR rayAttacks (- 1) (- 1) sq occ
      in case pt of
           KNIGHT \<Rightarrow> stepAttacks [(1, 2), (2, 1), (2, - 1), (1, - 2),
                                  (- 1, - 2), (- 2, - 1), (- 2, 1), (- 1, 2)] sq
         | BISHOP \<Rightarrow> bishop
         | ROOK \<Rightarrow> rook
         | QUEEN \<Rightarrow> rook OR bishop
         | KING \<Rightarrow> stepAttacks [(1, 0), (1, 1), (0, 1), (- 1, 1),
                                (- 1, 0), (- 1, - 1), (0, - 1), (1, - 1)] sq
         | _ \<Rightarrow> 0)"

definition samplePawnAttacks :: "Side \<Rightarrow> Bitboard \<Rightarrow> Bitboard" where
  "samplePawnAttacks s b =
     (let notA = NOT 0x0101010101010101; notH = NOT 0x8080808080808080 in
      case s of
        WHITE \<Rightarrow> push_bit 7 (b AND notA) OR push_bit 9 (b AND notH)
      | BLACK \<Rightarrow> drop_bit 9 (b AND notA) OR drop_bit 7 (b AND notH))"

definition sampleChess :: Chess where
  "sampleChess = \<lparr>
     NB_PIECE_TYPE = 7,
     pieceTypeIndex = (\<lambda>pt. case pt of NO_PIECE_TYPE \<Rightarrow> 0 | PAWN \<Rightarrow> 1 | KNIGHT \<Rightarrow> 2
                          | BISHOP \<Rightarrow> 3 | ROOK \<Rightarrow> 4 | QUEEN \<Rightarrow> 5 | KING \<Rightarrow> 6),
     PieceValueMG = (\<lambda>p. case pieceType p of PAWN \<Rightarrow> 100 | KNIGHT \<Rightarrow> 320 | BISHOP \<Rightarrow> 330
                          | ROOK \<Rightarrow> 500 | QUEEN \<Rightarrow> 900 | _ \<Rightarrow> 0),
     pawnAttacks = samplePawnAttacks,
     attacks = sampleAttacks\<rparr>"

text \<open>A sort that meets \<open>sortsByScore\<close>: insertion sort on the negated score.\<close>

definition sortDescending :: "ScoredMove list \<Rightarrow> ScoredMove list" where
  "sortDescending = sort_key (\<lambda>sm. - score sm)"

text \<open>A handler that never stops and keeps no state.\<close>

definition keepGoing :: "unit Handler" where
  "keepGoing m s = (True, s)"

text \<open>
  The position \<^verbatim>\<open>6k1/8/4p3/3p4/np6/2N5/8/7K w - - 0 1\<close>: White has a king on h1 and a
  knight on c3; Black a king on g8, a knight on a4 and pawns on b4, d5 and e6.
  The knight on c3 is attacked by the pawn on b4. It can take the loose knight on a4
  or the pawn on d5, which the pawn on e6 guards; of its quiet moves only the one to
  e4 lands on a square a black pawn attacks. White has neither rook nor queen, so
  \<open>threatenedByMinors\<close> and \<open>threatenedByRooks\<close> have no effect on any score here. The
  generator lists the captures first and the knight moves before the king moves.
\<close>

definition Nc3xa4 :: Move where "Nc3xa4 = makeMove 18 24 NORMAL"
definition Nc3xd5 :: Move where "Nc3xd5 = makeMove 18 35 NORMAL"
definition Nc3a2 :: Move where "Nc3a2 = makeMove 18 8 NORMAL"
definition Nc3b1 :: Move where "Nc3b1 = makeMove 18 1 NORMAL"
definition Nc3b5 :: Move where "Nc3b5 = makeMove 18 33 NORMAL"
definition Nc3d1 :: Move where "Nc3d1 = makeMove 18 3 NORMAL"
definition Nc3e2 :: Move where "Nc3e2 = makeMove 18 12 NORMAL"
definition Nc3e4 :: Move where "Nc3e4 = makeMove 18 28 NORMAL"
definition Kh1g1 :: Move where "Kh1g1 = makeMove 7 6 NORMAL"
definition Kh1g2 :: Move where "Kh1g2 = makeMove 7 14 NORMAL"
definition Kh1h2 :: Move where "Kh1h2 = makeMove 7 15 NORMAL"

definition forkTacticals :: "Move list" where
  "forkTacticals = [Nc3xa4, Nc3xd5]"

definition forkQuiets :: "Move list" where
  "forkQuiets = [Nc3a2, Nc3b1, Nc3b5, Nc3d1, Nc3e2, Nc3e4, Kh1g1, Kh1g2, Kh1h2]"

text \<open>
  The static exchange value of a move: the knight on a4 is won for nothing, taking on
  d5 or going to e4 loses the knight (for a pawn on d5), every other move is even.
\<close>

definition forkSeeValue :: "Move \<Rightarrow> int" where
  "forkSeeValue m = (if m = Nc3xa4 then 320 else if m = Nc3xd5 then - 220
                     else if m = Nc3e4 then - 320 else 0)"

definition forkPos :: Position where
  "forkPos = \<lparr>
     inCheck = False,
     isLegal = (\<lambda>s m. s = WHITE \<and> m \<in> set (forkTacticals @ forkQuiets)),
     isCapture = (\<lambda>m. m \<in> set forkTacticals),
     isTactical = (\<lambda>m. m \<in> set forkTacticals),
     see = (\<lambda>m threshold. forkSeeValue m \<ge> threshold),
     getPieceAt = (\<lambda>sq. if sq = 7 then makePiece WHITE KING
                         else if sq = 18 then makePiece WHITE KNIGHT
                         else if sq = 62 then makePiece BLACK KING
                         else if sq = 24 then makePiece BLACK KNIGHT
                         else if sq = 25 \<or> sq = 35 \<or> sq = 44 then makePiece BLACK PAWN
                         else NO_PIECE),
     getPiecesBB = bb 7 OR bb 18 OR bb 62 OR bb 24 OR bb 25 OR bb 35 OR bb 44,
     getPiecesBBof = (\<lambda>s pt.
        if s = WHITE then (case pt of KING \<Rightarrow> bb 7 | KNIGHT \<Rightarrow> bb 18 | _ \<Rightarrow> 0)
        else (case pt of KING \<Rightarrow> bb 62 | KNIGHT \<Rightarrow> bb 24
                       | PAWN \<Rightarrow> bb 25 OR bb 35 OR bb 44 | _ \<Rightarrow> 0)),
     threatenedByPawns = bb 16 OR bb 18 OR bb 26 OR bb 28 OR bb 35 OR bb 37,
     threatenedByMinors = bb 16 OR bb 18 OR bb 26 OR bb 28 OR bb 35 OR bb 37
                          OR bb 9 OR bb 34 OR bb 41,
     threatenedByRooks = bb 16 OR bb 18 OR bb 26 OR bb 28 OR bb 35 OR bb 37
                          OR bb 9 OR bb 34 OR bb 41,
     enumerateLegalMoves = (\<lambda>s T.
        if s = WHITE then (case T of TACTICAL_MOVES \<Rightarrow> forkTacticals
                                   | QUIET_MOVES \<Rightarrow> forkQuiets
                                   | ALL_MOVES \<Rightarrow> forkTacticals @ forkQuiets)
        else [])\<rparr>"

text \<open>
  The position \<^verbatim>\<open>4k3/8/8/8/8/8/3B4/R5K1 w - - 0 1\<close>: White has a king on g1, a rook
  on a1 and a bishop on d2; Black only a king on e8, on an empty e-file. The rook
  move to e1 gives check. The bishop move to e3 does not: e8 is not on a diagonal
  of e3. Only the fields that \<open>scoreQuiet\<close> and \<open>threatenedPiecesOf\<close> read are set;
  the others are those of \<open>base\<close>.
\<close>

definition Ra1e1 :: Move where "Ra1e1 = makeMove 0 4 NORMAL"
definition Bd2e3 :: Move where "Bd2e3 = makeMove 11 20 NORMAL"

definition openFilePos :: "Position \<Rightarrow> Position" where
  "openFilePos base = base\<lparr>
     getPieceAt := (\<lambda>sq. if sq = 6 then makePiece WHITE KING
                          else if sq = 0 then makePiece WHITE ROOK
                          else if sq = 11 then makePiece WHITE BISHOP
                          else if sq = 60 then makePiece BLACK KING
                          else NO_PIECE),
     getPiecesBB := bb 6 OR bb 0 OR bb 11 OR bb 60,
     getPiecesBBof := (\<lambda>s pt.
        if s = WHITE then (case pt of KING \<Rightarrow> bb 6 | ROOK \<Rightarrow> bb 0 | BISHOP \<Rightarrow> bb 11 | _ \<Rightarrow> 0)
        else (case pt of KING \<Rightarrow> bb 60 | _ \<Rightarrow> 0)),
     threatenedByPawns := 0,
     threatenedByMinors := 0,
     threatenedByRooks := 0\<rparr>"



section \<open>Properties\<close>

subsection \<open>engine.h\<close>

lemma useTimeLimit_Some_imp:
  assumes "useTimeLimit sd = Some b"
  shows "useTournamentTime sd"
  by (rule useTimeLimit.raw_induct [where P = "\<lambda>sd b. useTournamentTime sd", OF _ assms])
    (simp split: if_splits)

lemma useTimeLimit_diverges: "\<not> useTournamentTime sd \<Longrightarrow> useTimeLimit sd = None"
  using useTimeLimit_Some_imp by (cases "useTimeLimit sd") auto

text \<open>
  Claim C4 (\<open>useTimeLimit()\<close> is total and returns \<open>useTournamentTime() || useFixedTime()\<close>).
  The source calls itself instead of \<open>useFixedTime()\<close>. With a fixed time of 100 ms
  and no tournament clock the claim asks for \<open>true\<close>; the call does not return.
\<close>

theorem useTimeLimit_fixed_time_diverges:
  "useFixedTime sdFixed \<and> useTimeLimit sdFixed = None"
  using useTimeLimit_diverges [of sdFixed]
  by (simp add: sdFixed_def sd0_def noLimits_def useFixedTime_def useTournamentTime_def)

text \<open>
  Claim C5 (\<open>useTournamentTime()\<close> holds iff \<open>timeLeft[WHITE] != 0\<close> or
  \<open>timeLeft[BLACK] != 0\<close>). The source reads \<open>timeLeft[WHITE]\<close> twice: with 60 s left
  for Black and nothing for White it returns \<open>false\<close>.
\<close>

theorem useTournamentTime_ignores_black:
  "timeLeft (limits sdBlackClock) BLACK \<noteq> 0 \<and> useTournamentTime sdBlackClock = False"
  by (simp add: sdBlackClock_def sd0_def noLimits_def useTournamentTime_def)

text \<open>
  Claim C3, amended: \<open>shouldStop()\<close> returns \<open>true\<close> iff \<open>nbNodes\<close> is a multiple of
  1024 and one of these holds: \<open>useTournamentTime()\<close> and \<open>elapsed >= allocatedTime\<close>;
  fixed time is in use and \<open>elapsed > limits.maxTime\<close> (strictly);
  a node limit is in use and \<open>nbNodes >= limits.maxNodes\<close>.
  With all limit fields zero it returns \<open>false\<close>.
\<close>

theorem shouldStop_iff:
  "(shouldStop sd now \<longleftrightarrow>
      nbNodes sd mod 1024 = 0 \<and>
      (useTournamentTime sd \<and> now - startTime sd \<ge> allocatedTime sd
       \<or> useFixedTime sd \<and> now - startTime sd > maxTime (limits sd)
       \<or> useNodeCountLimit sd \<and> nbNodes sd \<ge> maxNodes (limits sd)))
   \<and> (timeLeft (limits sd) WHITE = 0 \<and> timeLeft (limits sd) BLACK = 0
        \<and> maxTime (limits sd) = 0 \<and> maxNodes (limits sd) = 0 \<longrightarrow> \<not> shouldStop sd now)"
  by (auto simp: shouldStop_def Let_def useTournamentTime_def useFixedTime_def
      useNodeCountLimit_def)

text \<open>
  The amended claim at work: 101 ms into a 100 ms fixed-time search, at node 2048, the
  search stops; with no limit at all it does not.
\<close>

theorem shouldStop_iff_witness:
  "shouldStop (sdFixed\<lparr>nbNodes := 2048\<rparr>) 101
   \<and> timeLeft (limits sd0) WHITE = 0 \<and> timeLeft (limits sd0) BLACK = 0
   \<and> maxTime (limits sd0) = 0 \<and> maxNodes (limits sd0) = 0 \<and> \<not> shouldStop sd0 5000"
  using shouldStop_iff [of "sdFixed\<lparr>nbNodes := 2048\<rparr>" 101] shouldStop_iff [of sd0 5000]
  by (simp add: sdFixed_def sd0_def noLimits_def useTournamentTime_def useFixedTime_def
      useNodeCountLimit_def)

text \<open>
  Claim C3 as stated (fixed time stops at \<open>elapsed >= limits.maxTime\<close>) fails when the
  elapsed time equals \<open>maxTime\<close>: the source compares with \<open>>\<close>.
\<close>

theorem shouldStop_at_maxTime_counterexample:
  "\<not> (shouldStop sdFixed 100 \<longleftrightarrow>
      nbNodes sdFixed mod 1024 = 0 \<and>
      (useTournamentTime sdFixed \<and> 100 - startTime sdFixed \<ge> allocatedTime sdFixed
       \<or> useFixedTime sdFixed \<and> 100 - startTime sdFixed \<ge> maxTime (limits sdFixed)
       \<or> useNodeCountLimit sdFixed \<and> nbNodes sdFixed \<ge> maxNodes (limits sdFixed)))"
  by (simp add: shouldStop_def sdFixed_def sd0_def noLimits_def useTournamentTime_def
      useFixedTime_def useNodeCountLimit_def)

text \<open>
  Claim C6: at a ply inside the table whose two killers are distinct unless one is
  \<open>MOVE_NONE\<close>, \<open>updateKillers(m, ply)\<close> returns, the two slots are again distinct unless
  one is \<open>MOVE_NONE\<close>; if \<open>m\<close> differs from slot 0, slot 0 moves to slot 1 and \<open>m\<close>
  becomes slot 0 (no other ply changes), and if \<open>m\<close> equals slot 0 nothing changes.
\<close>

theorem updateKillers_distinct:
  assumes "0 \<le> ply" and "nat ply < length (killerMoves sd)"
    and "killersDistinct sd (nat ply)"
  shows "\<exists>sd'. updateKillers m ply sd = Some sd'
      \<and> killersDistinct sd' (nat ply)
      \<and> (if fst (killerMoves sd ! nat ply) \<noteq> m
         then killerMoves sd' = (killerMoves sd)[nat ply := (m, fst (killerMoves sd ! nat ply))]
         else sd' = sd)"
  using assms by (auto simp: updateKillers_def killersDistinct_def Let_def)

text \<open>
  At ply 1 holding \<open>(e2e4, MOVE_NONE)\<close>, the killer \<open>g1f3\<close> gives \<open>(g1f3, e2e4)\<close>.
\<close>

theorem updateKillers_distinct_witness:
  "0 \<le> (1::int) \<and> nat 1 < length (killerMoves sdKillers) \<and> killersDistinct sdKillers (nat 1)
   \<and> (\<exists>sd'. updateKillers g1f3 1 sdKillers = Some sd' \<and> killersDistinct sd' (nat 1)
         \<and> killerMoves sd' = [(MOVE_NONE, MOVE_NONE), (g1f3, e2e4)])"
proof -
  have h1: "0 \<le> (1::int)" and h2: "nat 1 < length (killerMoves sdKillers)"
    and h3: "killersDistinct sdKillers (nat 1)"
    by (simp_all add: sdKillers_def sd0_def killersDistinct_def)
  from updateKillers_distinct [OF h1 h2 h3, of g1f3]
  obtain sd' where "updateKillers g1f3 1 sdKillers = Some sd'" "killersDistinct sd' (nat 1)"
    "killerMoves sd' = (killerMoves sdKillers)[nat 1 := (g1f3, fst (killerMoves sdKillers ! nat 1))]"
    by (auto simp: sdKillers_def sd0_def e2e4_def g1f3_def split: if_splits)
  moreover have "(killerMoves sdKillers)[nat 1 := (g1f3, fst (killerMoves sdKillers ! nat 1))]
      = [(MOVE_NONE, MOVE_NONE), (g1f3, e2e4)]"
    by (simp add: sdKillers_def sd0_def)
  ultimately show ?thesis using h1 h2 h3 by auto
qed

subsection \<open>perft.cpp\<close>

lemma fold_count: "fold (\<lambda>m. Suc) xs a = a + length xs"
  by (induction xs arbitrary: a) auto

lemma fold_invariant:
  assumes "I a" and "\<And>x a. x \<in> set xs \<Longrightarrow> I a \<Longrightarrow> I (f x a)"
  shows "I (fold f xs a)"
  using assms by (induction xs arbitrary: a) auto

lemma fold_related:
  assumes "R a b" and "\<And>x a b. x \<in> set xs \<Longrightarrow> R a b \<Longrightarrow> R (f x a) (g x b)"
  shows "R (fold f xs a) (fold g xs b)"
  using assms by (induction xs arbitrary: a b) auto

lemma perft_leaf:
  "depth \<le> 1 \<Longrightarrow> perft ops False Me pos depth = (length (legalMovesOf ops Me pos), pos, [])"
  by (simp add: perft.simps fold_count)

lemma perft_restores:
  "undoInvertsDo ops \<Longrightarrow> fst (snd (perft ops Div Me pos depth)) = pos"
proof (induction ops Div Me pos depth rule: perft.induct)
  case (1 ops Div Me pos depth)
  show ?case
  proof (cases "\<not> Div \<and> depth \<le> 1")
    case True
    then show ?thesis by (simp add: perft.simps)
  next
    case False
    have ih: "fst (snd (perft ops False (flipSide Me) (doMove ops Me p m) (depth - 1)))
                = doMove ops Me p m"
      if "m \<in> set (legalMovesOf ops Me pos)" "depth \<noteq> 1" "undoInvertsDo ops" for m p
      using "1.IH" [OF False that(1) _ refl that(2) that(3)] that(2) by blast
    have step: "fst (snd (
            (\<lambda>m (total, p, out).
            let (n, p', out') =
                  (if Div \<and> depth = 1 then (1, p, out)
                   else
                     let p1 = doMove ops Me p m;
                         (n, p2, out2) =
                            (if depth = 1 then (1, p1, [])
                             else perft ops False (flipSide Me) p1 (depth - 1));
                         p3 = undoMove ops Me p2 m
                     in (n, p3, out @ [DoMove m] @ out2 @ [UndoMove m]));
                out'' = (if Div \<and> n > 0 then out' @ [Print m n] else out')
            in (total + n, p', out'')) m a)) = pos"
      if m_in: "m \<in> set (legalMovesOf ops Me pos)" and a_pos: "fst (snd a) = pos" for m a
    proof -
      obtain total out where a: "a = (total, pos, out)" using a_pos by (cases a) auto
      have u: "undoMove ops Me (doMove ops Me pos m) m = pos"
        using "1.prems" m_in by (simp add: undoInvertsDo_def)
      show ?thesis
      proof (cases "depth = 1")
        case True
        then show ?thesis using u by (simp add: a Let_def)
      next
        case ne: False
        from ih [OF m_in ne "1.prems", of pos] u show ?thesis
          by (simp add: a Let_def ne split: prod.splits) (metis fst_conv snd_conv)
      qed
    qed
    show ?thesis
      apply (subst perft.simps)
      apply (simp only: False if_False)
      apply (rule fold_invariant [where I = "\<lambda>a. fst (snd a) = pos"])
       apply simp
      apply (rule step)
      apply assumption+
      done
  qed
qed

lemma perft_divide_depth1:
  "perft ops True Me pos 1 =
     (length (legalMovesOf ops Me pos), pos, map (\<lambda>m. Print m 1) (legalMovesOf ops Me pos))"
proof -
  have "fold (\<lambda>m (total, p, out). (total + 1, p, out @ [Print m (Suc 0)])) xs (t, pos, out)
      = (t + length xs, pos, out @ map (\<lambda>m. Print m 1) xs)" for xs t out
    by (induction xs arbitrary: t out) auto
  from this [of "legalMovesOf ops Me pos" 0 "[]"] show ?thesis
    by (simp add: perft.simps)
qed

lemma perft_divide_deep:
  assumes "2 \<le> depth"
  shows "fst (perft ops True Me pos depth) = fst (perft ops False Me pos depth)
       \<and> fst (snd (perft ops True Me pos depth)) = fst (snd (perft ops False Me pos depth))"
proof -
  have d: "\<not> depth \<le> 1" "depth \<noteq> 1" using assms by auto
  let ?R = "\<lambda>a b :: nat \<times> 'a \<times> PerftEvent list. fst a = fst b \<and> fst (snd a) = fst (snd b)"
  show ?thesis
    apply (subst perft.simps)
    apply (subst (3) perft.simps)
    apply (subst (2) perft.simps)
    apply (subst (4) perft.simps)
    apply (simp only: d if_False simp_thms)
    apply (rule fold_related [where R = ?R])
     apply simp
    apply (auto simp: Let_def split: prod.splits)
    done
qed

lemma perft_divide_agrees_at:
  assumes "1 \<le> depth"
  shows "fst (perft ops True Me pos depth) = fst (perft ops False Me pos depth)
       \<and> fst (snd (perft ops True Me pos depth)) = fst (snd (perft ops False Me pos depth))"
proof (cases "depth = 1")
  case True
  then show ?thesis by (simp add: perft_divide_depth1 perft_leaf)
next
  case False
  with assms have "2 \<le> depth" by simp
  then show ?thesis by (rule perft_divide_deep)
qed

text \<open>
  Claim C9: for every depth \<open>d \<ge> 1\<close> the divide and the non-divide variant of
  \<open>perft<Div, Me>\<close>, and of \<open>perft<Div>\<close>, return the same node total and leave the
  same position; when \<open>undoMove\<close> inverts \<open>doMove\<close> on legal moves, that position is
  the entry position.
\<close>

theorem perft_divide_agrees:
  "1 \<le> depth \<Longrightarrow>
     fst (perft ops True Me pos depth) = fst (perft ops False Me pos depth)
     \<and> fst (snd (perft ops True Me pos depth)) = fst (snd (perft ops False Me pos depth))
     \<and> fst (perftSide ops True pos depth) = fst (perftSide ops False pos depth)
     \<and> (undoInvertsDo ops \<longrightarrow>
           fst (snd (perft ops True Me pos depth)) = pos
           \<and> fst (snd (perft ops False Me pos depth)) = pos
           \<and> fst (snd (perftSide ops True pos depth)) = pos
           \<and> fst (snd (perftSide ops False pos depth)) = pos)"
  using perft_divide_agrees_at [of depth ops Me pos] perft_divide_agrees_at [of depth ops WHITE pos]
    perft_divide_agrees_at [of depth ops BLACK pos]
  by (simp add: perftSide_def perft_restores)

text \<open>
  Claim C10: for every depth \<open>d \<le> 1\<close> (zero and negative depths included) the
  non-divide \<open>perft<false, Me>\<close> returns the number of legal moves, leaves the position
  as it is and calls neither \<open>doMove\<close> nor \<open>undoMove\<close> (its event list is empty).
\<close>

theorem perft_leaf_counts_moves:
  "depth \<le> 1 \<Longrightarrow> perft ops False Me pos depth = (length (legalMovesOf ops Me pos), pos, [])"
  by (simp add: perft.simps fold_count)

lemma stackGame_inverse: "undoInvertsDo stackGame"
  by (simp add: undoInvertsDo_def stackGame_def)

text \<open>
  Depth 2 in the sample game: both variants count 4 nodes and restore the position.
\<close>

theorem perft_divide_agrees_witness:
  "(1::int) \<le> 2 \<and> undoInvertsDo stackGame
   \<and> fst (perft stackGame True WHITE [] 2) = 4 \<and> fst (perft stackGame False WHITE [] 2) = 4
   \<and> fst (perftSide stackGame True [] 2) = 4
   \<and> fst (snd (perft stackGame True WHITE [] 2)) = []
   \<and> fst (snd (perft stackGame False WHITE [] 2)) = []"
proof -
  have v: "fst (perft stackGame False WHITE [] 2) = 4"
    by (simp add: perft.simps stackGame_def Let_def)
  have w: "perftSide stackGame True [] 2 = perft stackGame True WHITE [] 2"
    by (simp add: perftSide_def stackGame_def)
  from perft_divide_agrees [of 2 stackGame WHITE "[]"] stackGame_inverse v w
  show ?thesis by simp
qed

text \<open>
  Depth 0 in the sample game: the non-divide variant counts the 2 legal moves (the
  divide variant, which the claim does not cover, counts 4 there).
\<close>

theorem perft_leaf_counts_moves_witness:
  "(0::int) \<le> 1 \<and> perft stackGame False WHITE [] 0 = (2, [], [])
   \<and> fst (perft stackGame True WHITE [] 0) = 4"
proof -
  have "fst (perft stackGame True WHITE [] 0) = 4"
    by (simp add: perft.simps stackGame_def Let_def)
  with perft_leaf_counts_moves [of 0 stackGame WHITE "[]"] show ?thesis
    by (simp add: stackGame_def)
qed

subsection \<open>movepicker.h: enumerate as one loop\<close>

lemma andThen_True [simp]: "andThen (True, s) k = k s"
  by (simp add: andThen_def)

lemma andThen_Pair_True [simp]: "andThen r (Pair True) = r"
  by (cases r) (auto simp: andThen_def)

lemma andThen_assoc: "andThen (andThen r k1) k2 = andThen r (\<lambda>s. andThen (k1 s) k2)"
  by (simp add: andThen_def)

lemma yieldMoves_append_at:
  "yieldMoves h (xs @ ys) s = andThen (yieldMoves h xs s) (yieldMoves h ys)"
  by (induction xs arbitrary: s) (simp_all add: andThen_def)

lemma yieldMoves_append:
  "yieldMoves h (xs @ ys) = (\<lambda>s. andThen (yieldMoves h xs s) (yieldMoves h ys))"
  by (rule ext) (rule yieldMoves_append_at)

lemma logged_apply: "logged h m (s, log) = (fst (h m s), (snd (h m s), log @ [m]))"
  by (simp add: logged_def split: prod.splits)

lemma yieldMoves_Nil_eq: "yieldMoves h [] = Pair True"
  by (rule ext) simp

lemma enumerate_eq_yieldMoves:
  "enumerate srt ch Type Me pos ttMove killer1 killer2 counter h s0
     = yieldMoves h (pickerOrder srt ch Type Me pos ttMove killer1 killer2 counter) s0"
  by (simp add: enumerate_def pickerOrder_def refutationMoves_def yieldMoves_append
      yieldMoves_Nil_eq Let_def)

lemma yieldMoves_logged:
  "yieldMoves (logged h) ms (s, log) = (b, (s', log'))
     \<Longrightarrow> \<exists>n \<le> length ms. log' = log @ take n ms \<and> (b \<longrightarrow> n = length ms)"
proof (induction ms arbitrary: s log)
  case Nil
  then show ?case by simp
next
  case (Cons m ms)
  obtain b1 s1 where h: "h m s = (b1, s1)" by (cases "h m s")
  show ?case
  proof (cases b1)
    case True
    with Cons.prems h have "yieldMoves (logged h) ms (s1, log @ [m]) = (b, (s', log'))"
      by (simp add: logged_apply)
    from Cons.IH [OF this] obtain n where "n \<le> length ms" "log' = (log @ [m]) @ take n ms"
      "b \<longrightarrow> n = length ms" by blast
    then show ?thesis by (intro exI [of _ "Suc n"]) simp
  next
    case False
    with Cons.prems h have "b = False" "log' = log @ [m]"
      by (simp_all add: logged_apply andThen_def)
    then show ?thesis by (intro exI [of _ "Suc 0"]) simp
  qed
qed

lemma enumerate_logged:
  assumes "enumerate srt ch Type Me pos ttMove killer1 killer2 counter (logged h) (s0, [])
             = (b, (s', log))"
  shows "\<exists>n. log = take n (pickerOrder srt ch Type Me pos ttMove killer1 killer2 counter)"
    and "b \<Longrightarrow> log = pickerOrder srt ch Type Me pos ttMove killer1 killer2 counter"
  using yieldMoves_logged [OF assms [unfolded enumerate_eq_yieldMoves]] by auto




subsection \<open>movepicker.h: the moves of a whole enumeration\<close>

lemma sortsByScore_mset: "sortsByScore srt \<Longrightarrow> mset (srt xs) = mset xs"
  by (simp add: sortsByScore_def)

lemma sortsByScore_set: "sortsByScore srt \<Longrightarrow> set (srt xs) = set xs"
  by (metis sortsByScore_mset set_mset_mset)

lemma sortsByScore_sorted:
  "sortsByScore srt \<Longrightarrow> sorted_wrt (\<lambda>a b. score a \<ge> score b) (srt xs)"
  by (simp add: sortsByScore_def)

lemma mset_moves_scored:
  "sortsByScore srt \<Longrightarrow> mset (map move (srt (map (\<lambda>m. \<lparr>move = m, score = f m\<rparr>) xs))) = mset xs"
proof -
  assume "sortsByScore srt"
  then have "mset (map move (srt (map (\<lambda>m. \<lparr>move = m, score = f m\<rparr>) xs)))
      = mset (map move (map (\<lambda>m. \<lparr>move = m, score = f m\<rparr>) xs))"
    by (metis mset_map sortsByScore_mset)
  then show ?thesis by (simp add: comp_def)
qed

lemma mset_three_loops:
  "mset (goodQuietsLoop n xs) + mset (badTacticalsLoop n xs) + mset (badQuietsLoop n xs) = mset xs"
proof -
  have "mset (filter (\<lambda>sm. \<not> score sm < 0) (drop n xs)) + mset (filter (\<lambda>sm. score sm < 0) (drop n xs))
      = mset (drop n xs)"
    by (metis add.commute mset_filter multiset_partition)
  moreover have "mset (take n xs) + mset (drop n xs) = mset xs"
    by (metis append_take_drop_id mset_append)
  ultimately show ?thesis
    by (simp add: goodQuietsLoop_def badTacticalsLoop_def badQuietsLoop_def ac_simps)
qed

lemma mset_good_bad:
  "mset (goodTacticals MAIN pos xs) + mset (badTacticals MAIN pos xs) = mset xs"
  by (simp add: goodTacticals_def badTacticals_def)

lemma mset_pickerOrder_main:
  assumes srt: "sortsByScore srt" and nc: "\<not> inCheck pos"
  shows "mset (pickerOrder srt ch MAIN Me pos ttMove killer1 killer2 counter)
     = mset ((if isLegal pos Me ttMove then [ttMove] else [])
             @ tacticalGen Me pos ttMove
             @ refutationMoves Me pos ttMove killer1 killer2 counter
             @ quietGen Me pos ttMove killer1 killer2 counter)"
proof -
  let ?moves = "tacticalMoves srt ch MAIN Me pos ttMove"
  let ?bad = "badTacticals MAIN pos ?moves"
  let ?moves2 = "quietMoves srt ch Me pos ttMove killer1 killer2 counter ?bad"
  let ?n = "length ?bad"
  have m2: "mset (map move ?moves2) = mset (map move ?bad) + mset (quietGen Me pos ttMove killer1 killer2 counter)"
  proof -
    have "mset ?moves2 = mset (?bad @ map (\<lambda>m. \<lparr>move = m, score = scoreQuiet ch Me pos (threatenedPiecesOf Me pos) m\<rparr>) (quietGen Me pos ttMove killer1 killer2 counter))"
      using srt by (simp add: quietMoves_def quietGen_def sortsByScore_mset)
    then have "mset (map move ?moves2) = mset (map move (?bad @ map (\<lambda>m. \<lparr>move = m, score = scoreQuiet ch Me pos (threatenedPiecesOf Me pos) m\<rparr>) (quietGen Me pos ttMove killer1 killer2 counter)))"
      by (metis mset_map)
    then show ?thesis by (simp add: comp_def)
  qed
  have loops: "mset (map move (goodQuietsLoop ?n ?moves2)) + mset (map move (badTacticalsLoop ?n ?moves2))
        + mset (map move (badQuietsLoop ?n ?moves2)) = mset (map move ?moves2)"
    using arg_cong [OF mset_three_loops [of ?n ?moves2], of "image_mset move"] by simp
  have gb: "mset (map move (goodTacticals MAIN pos ?moves)) + mset (map move ?bad) = mset (tacticalGen Me pos ttMove)"
  proof -
    have "mset (map move (goodTacticals MAIN pos ?moves)) + mset (map move ?bad) = mset (map move ?moves)"
      using arg_cong [OF mset_good_bad [of pos ?moves], of "image_mset move"] by simp
    also have "\<dots> = mset (tacticalGen Me pos ttMove)"
      using mset_moves_scored [OF srt] by (simp add: tacticalMoves_def tacticalGen_def)
    finally show ?thesis .
  qed
  have "mset (pickerOrder srt ch MAIN Me pos ttMove killer1 killer2 counter)
      = mset (if isLegal pos Me ttMove then [ttMove] else [])
        + (mset (map move (goodTacticals MAIN pos ?moves))
        + (mset (refutationMoves Me pos ttMove killer1 killer2 counter)
        + (mset (map move (goodQuietsLoop ?n ?moves2)) + mset (map move (badTacticalsLoop ?n ?moves2))
        + mset (map move (badQuietsLoop ?n ?moves2)))))"
    using nc by (simp add: pickerOrder_def Let_def)
  also have "\<dots> = mset (if isLegal pos Me ttMove then [ttMove] else [])
        + (mset (map move (goodTacticals MAIN pos ?moves))
        + (mset (refutationMoves Me pos ttMove killer1 killer2 counter)
        + (mset (map move ?bad) + mset (quietGen Me pos ttMove killer1 killer2 counter))))"
    by (simp only: loops m2)
  also have "\<dots> = mset (if isLegal pos Me ttMove then [ttMove] else [])
        + (mset (tacticalGen Me pos ttMove)
        + (mset (refutationMoves Me pos ttMove killer1 killer2 counter)
        + mset (quietGen Me pos ttMove killer1 killer2 counter)))"
    using gb by (simp add: ac_simps)
  finally show ?thesis by simp
qed

lemma distinct_moves_scored:
  assumes "sortsByScore srt" and "distinct xs"
  shows "distinct (map move (srt (map (\<lambda>m. \<lparr>move = m, score = f m\<rparr>) xs)))"
  using mset_moves_scored [OF assms(1), of f xs] assms(2) by (metis mset_eq_imp_distinct_iff)

lemma set_moves_scored:
  assumes "sortsByScore srt"
  shows "set (map move (srt (map (\<lambda>m. \<lparr>move = m, score = f m\<rparr>) xs))) = set xs"
  using mset_moves_scored [OF assms, of f xs] by (metis set_mset_mset)

lemma distinct_refutationMoves:
  assumes "\<not> isLegal pos Me MOVE_NONE"
    and "killer1 = MOVE_NONE \<or> killer2 = MOVE_NONE \<or> killer1 \<noteq> killer2"
  shows "distinct (refutationMoves Me pos ttMove killer1 killer2 counter)"
  using assms by (auto simp: refutationMoves_def)

lemma refutationMoves_props:
  assumes "m \<in> set (refutationMoves Me pos ttMove killer1 killer2 counter)"
  shows "m \<noteq> ttMove" and "\<not> isTactical pos m" and "m = killer1 \<or> m = killer2 \<or> m = counter"
  using assms by (auto simp: refutationMoves_def split: if_splits)

lemma distinct_pickerOrder:
  assumes srt: "sortsByScore srt" and gen: "generatorDistinct Me pos"
    and kk: "killer1 = MOVE_NONE \<or> killer2 = MOVE_NONE \<or> killer1 \<noteq> killer2"
  shows "distinct (pickerOrder srt ch Type Me pos ttMove killer1 killer2 counter)"
proof (cases "inCheck pos")
  case True
  have "distinct (map move (evasionMoves srt ch Me pos ttMove))"
    unfolding evasionMoves_def
    using gen by (intro distinct_moves_scored [OF srt]) (simp add: generatorDistinct_def)
  then show ?thesis using True by (simp add: pickerOrder_def)
next
  case nc: False
  show ?thesis
  proof (cases Type)
    case QUIESCENCE
    have d: "distinct (map move (tacticalMoves srt ch QUIESCENCE Me pos ttMove))"
      unfolding tacticalMoves_def
      using gen by (intro distinct_moves_scored [OF srt]) (simp add: generatorDistinct_def)
    have "ttMove \<notin> set (map move (tacticalMoves srt ch QUIESCENCE Me pos ttMove))"
      unfolding tacticalMoves_def set_moves_scored [OF srt] by simp
    with d show ?thesis using nc QUIESCENCE
      by (simp add: pickerOrder_def goodTacticals_def Let_def)
  next
    case MAIN
    let ?T = "tacticalGen Me pos ttMove"
    let ?R = "refutationMoves Me pos ttMove killer1 killer2 counter"
    let ?Q = "quietGen Me pos ttMove killer1 killer2 counter"
    have dT: "distinct ?T" and dQ: "distinct ?Q"
      using gen by (simp_all add: tacticalGen_def quietGen_def generatorDistinct_def)
    have dR: "distinct ?R"
      using gen kk by (intro distinct_refutationMoves) (simp_all add: generatorDistinct_def)
    have tt: "ttMove \<notin> set ?T" "ttMove \<notin> set ?R" "ttMove \<notin> set ?Q"
      by (auto simp: tacticalGen_def quietGen_def dest: refutationMoves_props(1))
    have TR: "set ?T \<inter> set ?R = {}"
      using gen by (auto simp: tacticalGen_def generatorDistinct_def dest: refutationMoves_props(2))
    have TQ: "set ?T \<inter> set ?Q = {}"
      using gen by (auto simp: tacticalGen_def quietGen_def generatorDistinct_def)
    have RQ: "set ?R \<inter> set ?Q = {}"
      by (auto simp: quietGen_def dest: refutationMoves_props(3))
    have "distinct ((if isLegal pos Me ttMove then [ttMove] else []) @ ?T @ ?R @ ?Q)"
      using dT dQ dR tt TR TQ RQ by auto
    with mset_pickerOrder_main [OF srt nc, of ch Me ttMove killer1 killer2 counter]
    show ?thesis unfolding MAIN by (metis mset_eq_imp_distinct_iff)
  qed
qed

text \<open>
  Claim C1: in either mode and for any TT move, killers and counter move with
  \<open>killer1 != killer2\<close> unless one is \<open>MOVE_NONE\<close>, one call of \<open>enumerate\<close> passes no
  move to the handler twice, wherever the handler stops it. The move generator is taken
  to list no move twice, to list as tactical only moves that \<open>isTactical\<close> accepts and
  to list no move as both tactical and quiet; \<open>isLegal\<close> rejects \<open>MOVE_NONE\<close>.
\<close>

theorem enumerate_yields_distinct:
  assumes "sortsByScore srt" and "generatorDistinct Me pos"
    and "killer1 = MOVE_NONE \<or> killer2 = MOVE_NONE \<or> killer1 \<noteq> killer2"
    and "enumerate srt ch Type Me pos ttMove killer1 killer2 counter (logged h) (s0, [])
           = (b, (s', log))"
  shows "distinct log"
proof -
  from enumerate_logged(1) [OF assms(4)] obtain n where
    "log = take n (pickerOrder srt ch Type Me pos ttMove killer1 killer2 counter)" ..
  with distinct_pickerOrder [OF assms(1-3)] show ?thesis by simp
qed




subsection \<open>movepicker.h: the sample positions\<close>

lemmas fork_moves = Nc3xa4_def Nc3xd5_def Nc3a2_def Nc3b1_def Nc3b5_def Nc3d1_def Nc3e2_def
  Nc3e4_def Kh1g1_def Kh1g2_def Kh1h2_def

lemmas sample_eval = sampleChess_def bb_def kingHit_def sampleAttacks_def stepAttacks_def
  rayAttacks_def samplePawnAttacks_def onBoard_def sqOf_def toInt16_def Let_def

lemma sortsByScore_sortDescending: "sortsByScore sortDescending"
proof -
  have "sorted_wrt (\<lambda>a b. score a \<ge> score b) (sort_key (\<lambda>sm. - score sm) xs)"
    for xs :: "ScoredMove list"
    using sorted_sort_key [of "\<lambda>sm. - score sm" xs] by (simp add: sorted_map)
  then show ?thesis by (simp add: sortsByScore_def sortDescending_def)
qed

lemma generatorDistinct_forkPos: "generatorDistinct WHITE forkPos"
  by (simp add: generatorDistinct_def forkPos_def forkTacticals_def forkQuiets_def fork_moves)


lemma fork_tacticals_MAIN:
  "tacticalMoves sortDescending sampleChess MAIN WHITE forkPos MOVE_NONE
     = [\<lparr>move = Nc3xa4, score = 318\<rparr>, \<lparr>move = Nc3xd5, score = 98\<rparr>]"
  by (simp add: tacticalMoves_def sortDescending_def forkTacticals_def scoreTactical_def forkPos_def fork_moves sample_eval)

lemma fork_bad_MAIN:
  "badTacticals MAIN forkPos [\<lparr>move = Nc3xa4, score = 318\<rparr>, \<lparr>move = Nc3xd5, score = 98\<rparr>]
     = [\<lparr>move = Nc3xd5, score = 98\<rparr>]"
  by (simp add: badTacticals_def forkPos_def forkSeeValue_def fork_moves)

lemma fork_quietMoves_MAIN:
  "quietMoves sortDescending sampleChess WHITE forkPos MOVE_NONE MOVE_NONE MOVE_NONE MOVE_NONE
      [\<lparr>move = Nc3xd5, score = 98\<rparr>]
   = [\<lparr>move = Nc3a2, score = 305\<rparr>, \<lparr>move = Nc3b1, score = 305\<rparr>, \<lparr>move = Nc3b5, score = 305\<rparr>,
      \<lparr>move = Nc3d1, score = 305\<rparr>, \<lparr>move = Nc3e2, score = 305\<rparr>, \<lparr>move = Nc3xd5, score = 98\<rparr>,
      \<lparr>move = Nc3e4, score = 5\<rparr>,
      \<lparr>move = Kh1g1, score = 1\<rparr>, \<lparr>move = Kh1g2, score = 1\<rparr>, \<lparr>move = Kh1h2, score = 1\<rparr>]"
  by (simp add: quietMoves_def sortDescending_def forkQuiets_def scoreQuiet_def threatenedPiecesOf_def forkPos_def fork_moves sample_eval)

lemma fork_tacticals_after_tt:
  "tacticalMoves sortDescending sampleChess MAIN WHITE forkPos Nc3b5
     = [\<lparr>move = Nc3xa4, score = 318\<rparr>, \<lparr>move = Nc3xd5, score = 98\<rparr>]"
  by (simp add: tacticalMoves_def sortDescending_def forkTacticals_def scoreTactical_def forkPos_def fork_moves sample_eval)

lemma fork_quietMoves_after_refutations:
  "quietMoves sortDescending sampleChess WHITE forkPos Nc3b5 Nc3e4 Nc3xd5 Kh1g2
      [\<lparr>move = Nc3xd5, score = 98\<rparr>]
   = [\<lparr>move = Nc3a2, score = 305\<rparr>, \<lparr>move = Nc3b1, score = 305\<rparr>,
      \<lparr>move = Nc3d1, score = 305\<rparr>, \<lparr>move = Nc3e2, score = 305\<rparr>, \<lparr>move = Nc3xd5, score = 98\<rparr>,
      \<lparr>move = Kh1g1, score = 1\<rparr>, \<lparr>move = Kh1h2, score = 1\<rparr>]"
  by (simp add: quietMoves_def sortDescending_def forkQuiets_def scoreQuiet_def threatenedPiecesOf_def forkPos_def fork_moves sample_eval)

text \<open>
  With a TT move (Nb5), two killers (Ne4 and the capture Nxd5, which is skipped as
  tactical) and a counter move (Kg2), the eleven legal moves of the sample position
  are each yielded once in \<open>MAIN\<close> mode.
\<close>

theorem enumerate_yields_distinct_witness:
  "sortsByScore sortDescending \<and> generatorDistinct WHITE forkPos
   \<and> (Nc3e4 = MOVE_NONE \<or> Nc3xd5 = MOVE_NONE \<or> Nc3e4 \<noteq> Nc3xd5)
   \<and> enumerate sortDescending sampleChess MAIN WHITE forkPos Nc3b5 Nc3e4 Nc3xd5 Kh1g2
        (logged keepGoing) ((), [])
      = (True, (), [Nc3b5, Nc3xa4, Nc3e4, Kh1g2, Nc3b1, Nc3d1, Nc3e2, Nc3xd5, Kh1g1, Kh1h2, Nc3a2])
   \<and> distinct [Nc3b5, Nc3xa4, Nc3e4, Kh1g2, Nc3b1, Nc3d1, Nc3e2, Nc3xd5, Kh1g1, Kh1h2, Nc3a2]"
proof -
  have k: "Nc3e4 = MOVE_NONE \<or> Nc3xd5 = MOVE_NONE \<or> Nc3e4 \<noteq> Nc3xd5"
    by (simp add: fork_moves)
  have g: "goodTacticals MAIN forkPos [\<lparr>move = Nc3xa4, score = 318\<rparr>, \<lparr>move = Nc3xd5, score = 98\<rparr>]
     = [\<lparr>move = Nc3xa4, score = 318\<rparr>]"
    by (simp add: goodTacticals_def forkPos_def forkSeeValue_def fork_moves)
  have c: "\<not> inCheck forkPos" "isLegal forkPos WHITE Nc3b5"
    "Nc3e4 \<noteq> Nc3b5 \<and> \<not> isTactical forkPos Nc3e4 \<and> isLegal forkPos WHITE Nc3e4"
    "isTactical forkPos Nc3xd5"
    "Kh1g2 \<noteq> Nc3b5 \<and> \<not> isTactical forkPos Kh1g2 \<and> Kh1g2 \<noteq> Nc3e4 \<and> Kh1g2 \<noteq> Nc3xd5
       \<and> isLegal forkPos WHITE Kh1g2"
    by (simp_all add: forkPos_def forkTacticals_def forkQuiets_def fork_moves)
  have e: "enumerate sortDescending sampleChess MAIN WHITE forkPos Nc3b5 Nc3e4 Nc3xd5 Kh1g2
        (logged keepGoing) ((), [])
      = (True, (), [Nc3b5, Nc3xa4, Nc3e4, Kh1g2, Nc3b1, Nc3d1, Nc3e2, Nc3xd5, Kh1g1, Kh1h2, Nc3a2])"
    by (simp add: enumerate_def fork_tacticals_after_tt fork_quietMoves_after_refutations g c fork_bad_MAIN
        goodQuietsLoop_def badTacticalsLoop_def badQuietsLoop_def logged_apply keepGoing_def)
  from enumerate_yields_distinct [OF sortsByScore_sortDescending generatorDistinct_forkPos k e]
  show ?thesis using sortsByScore_sortDescending generatorDistinct_forkPos k e by simp
qed


lemma sorted_head_greatest:
  assumes srt: "sortsByScore srt" and ne: "xs \<noteq> []"
  obtains x rest where "srt xs = x # rest" and "\<forall>y \<in> set xs. score y \<le> score x"
    and "x \<in> set xs" and "set rest \<subseteq> set xs" and "distinct xs \<longrightarrow> x \<notin> set rest"
    and "set xs = insert x (set rest)"
proof -
  have m: "mset (srt xs) = mset xs" using srt by (rule sortsByScore_mset)
  then have "srt xs \<noteq> []" using ne by (metis mset_zero_iff)
  then obtain x rest where xr: "srt xs = x # rest" by (cases "srt xs") auto
  have s: "set xs = insert x (set rest)" using m xr by (metis list.simps(15) set_mset_mset)
  have "sorted_wrt (\<lambda>a b. score a \<ge> score b) (x # rest)"
    using sortsByScore_sorted [OF srt, of xs] xr by simp
  then have "\<forall>y \<in> set rest. score y \<le> score x" by simp
  then have g: "\<forall>y \<in> set xs. score y \<le> score x" using s by auto
  have d: "distinct xs \<longrightarrow> x \<notin> set rest"
    using m xr by (metis distinct.simps(2) mset_eq_imp_distinct_iff)
  show ?thesis using that [OF xr g] s d by auto
qed

lemma filter_permutation_single:
  assumes "mset ys = mset [a, b]" and "\<not> P a" and "P b"
  shows "filter P ys = [b]"
proof -
  have "mset (filter P ys) = filter_mset P (mset [a, b])" using assms(1) by (metis mset_filter)
  also have "\<dots> = {#b#}" using assms(2,3) by simp
  finally show ?thesis by (metis mset_single_iff_right)
qed

lemma fork_tacticals_any_sort:
  "tacticalMoves srt sampleChess MAIN WHITE forkPos MOVE_NONE
     = srt [\<lparr>move = Nc3xa4, score = 318\<rparr>, \<lparr>move = Nc3xd5, score = 98\<rparr>]"
  by (simp add: tacticalMoves_def forkTacticals_def scoreTactical_def forkPos_def fork_moves sample_eval)

lemma fork_bad_any_sort:
  assumes "sortsByScore srt"
  shows "badTacticals MAIN forkPos (tacticalMoves srt sampleChess MAIN WHITE forkPos MOVE_NONE)
     = [\<lparr>move = Nc3xd5, score = 98\<rparr>]"
  unfolding fork_tacticals_any_sort badTacticals_def
  using filter_permutation_single [OF sortsByScore_mset [OF assms],
      where a = "\<lparr>move = Nc3xa4, score = 318\<rparr>" and b = "\<lparr>move = Nc3xd5, score = 98\<rparr>"
        and P = "\<lambda>sm. \<not> see forkPos (move sm) (- 50)"]
  by (simp add: forkPos_def forkSeeValue_def fork_moves)

lemma fork_quietMoves_any_sort:
  "quietMoves srt sampleChess WHITE forkPos MOVE_NONE MOVE_NONE MOVE_NONE MOVE_NONE
      [\<lparr>move = Nc3xd5, score = 98\<rparr>]
   = srt [\<lparr>move = Nc3xd5, score = 98\<rparr>,
      \<lparr>move = Nc3a2, score = 305\<rparr>, \<lparr>move = Nc3b1, score = 305\<rparr>, \<lparr>move = Nc3b5, score = 305\<rparr>,
      \<lparr>move = Nc3d1, score = 305\<rparr>, \<lparr>move = Nc3e2, score = 305\<rparr>, \<lparr>move = Nc3e4, score = 5\<rparr>,
      \<lparr>move = Kh1g1, score = 1\<rparr>, \<lparr>move = Kh1g2, score = 1\<rparr>, \<lparr>move = Kh1h2, score = 1\<rparr>]"
  by (simp add: quietMoves_def forkQuiets_def scoreQuiet_def threatenedPiecesOf_def forkPos_def fork_moves sample_eval)

text \<open>
  Claim C2 (in \<open>MAIN\<close> mode outside check the "Good quiets" loop yields exactly the
  remaining quiet moves of score at least 0 and the "Bad tacticals" loop exactly the
  deferred tactical moves). The second \<open>std::sort\<close> runs over the deferred tactical
  moves and the quiet moves together. In the sample position the capture on d5
  (score 98) is the one deferred move and five quiet knight moves score 305.
  Whatever order \<open>std::sort\<close> gives to equal scores, the "Good quiets" loop yields
  the capture on d5 and the "Bad tacticals" loop yields one quiet move instead.
\<close>

theorem deferred_capture_among_good_quiets:
  assumes "sortsByScore srt"
  shows "(let moves = tacticalMoves srt sampleChess MAIN WHITE forkPos MOVE_NONE;
              bad = badTacticals MAIN forkPos moves;
              moves2 = quietMoves srt sampleChess WHITE forkPos MOVE_NONE MOVE_NONE MOVE_NONE
                         MOVE_NONE bad
          in map move bad = [Nc3xd5]
             \<and> Nc3xd5 \<in> set (map move (goodQuietsLoop (length bad) moves2))
             \<and> (\<exists>q. q \<in> set (enumerateLegalMoves forkPos WHITE QUIET_MOVES)
                    \<and> map move (badTacticalsLoop (length bad) moves2) = [q]))"
proof -
  let ?L = "[\<lparr>move = Nc3xd5, score = 98\<rparr>,
      \<lparr>move = Nc3a2, score = 305\<rparr>, \<lparr>move = Nc3b1, score = 305\<rparr>, \<lparr>move = Nc3b5, score = 305\<rparr>,
      \<lparr>move = Nc3d1, score = 305\<rparr>, \<lparr>move = Nc3e2, score = 305\<rparr>, \<lparr>move = Nc3e4, score = 5\<rparr>,
      \<lparr>move = Kh1g1, score = 1\<rparr>, \<lparr>move = Kh1g2, score = 1\<rparr>, \<lparr>move = Kh1h2, score = 1\<rparr>]"
  have ne: "?L \<noteq> []" by simp
  from sorted_head_greatest [OF assms ne] obtain x rest where
    xr: "srt ?L = x # rest" and g: "\<forall>y \<in> set ?L. score y \<le> score x" and xin: "x \<in> set ?L"
    and s: "set ?L = insert x (set rest)"
    by metis
  have "score x \<ge> 305" using g by simp
  with xin have xq: "move x \<in> set forkQuiets" and xne: "x \<noteq> \<lparr>move = Nc3xd5, score = 98\<rparr>"
    by (auto simp: forkQuiets_def)
  have "\<lparr>move = Nc3xd5, score = 98\<rparr> \<in> set ?L" by simp
  then have "\<lparr>move = Nc3xd5, score = 98\<rparr> \<in> insert x (set rest)" by (simp only: s)
  with xne have inrest: "\<lparr>move = Nc3xd5, score = 98\<rparr> \<in> set rest" by simp
  then have "Nc3xd5 \<in> move ` {sm \<in> set rest. \<not> score sm < 0}" by force
  moreover have "move x \<in> set (enumerateLegalMoves forkPos WHITE QUIET_MOVES)"
    using xq by (simp add: forkPos_def)
  ultimately show ?thesis
    by (simp add: fork_bad_any_sort [OF assms] fork_quietMoves_any_sort xr
        goodQuietsLoop_def badTacticalsLoop_def)
qed

text \<open>
  With insertion sort the three loops yield, in this order: the quiet moves Nb1, Nb5,
  Nd1, Ne2, then the capture on d5, then Ne4 and the king moves; the quiet move Na2;
  nothing.
\<close>

theorem bad_tacticals_loop_yields_quiet:
  "sortsByScore sortDescending
   \<and> (let moves = tacticalMoves sortDescending sampleChess MAIN WHITE forkPos MOVE_NONE;
        bad = badTacticals MAIN forkPos moves;
        moves2 = quietMoves sortDescending sampleChess WHITE forkPos MOVE_NONE MOVE_NONE MOVE_NONE
                   MOVE_NONE bad
    in map move bad = [Nc3xd5]
       \<and> map move (goodQuietsLoop (length bad) moves2)
           = [Nc3b1, Nc3b5, Nc3d1, Nc3e2, Nc3xd5, Nc3e4, Kh1g1, Kh1g2, Kh1h2]
       \<and> map move (badTacticalsLoop (length bad) moves2) = [Nc3a2]
       \<and> map move (badQuietsLoop (length bad) moves2) = [])
   \<and> isTactical forkPos Nc3xd5 \<and> \<not> see forkPos Nc3xd5 (- 50)
   \<and> Nc3a2 \<in> set (enumerateLegalMoves forkPos WHITE QUIET_MOVES)
   \<and> enumerate sortDescending sampleChess MAIN WHITE forkPos MOVE_NONE MOVE_NONE MOVE_NONE
        MOVE_NONE (logged keepGoing) ((), [])
      = (True, (), [Nc3xa4, Nc3b1, Nc3b5, Nc3d1, Nc3e2, Nc3xd5, Nc3e4, Kh1g1, Kh1g2, Kh1h2, Nc3a2])"
proof -
  have 1: "isTactical forkPos Nc3xd5 \<and> \<not> see forkPos Nc3xd5 (- 50)
      \<and> Nc3a2 \<in> set (enumerateLegalMoves forkPos WHITE QUIET_MOVES)"
    by (simp add: forkPos_def forkTacticals_def forkQuiets_def forkSeeValue_def fork_moves)
  have 2: "goodTacticals MAIN forkPos [\<lparr>move = Nc3xa4, score = 318\<rparr>, \<lparr>move = Nc3xd5, score = 98\<rparr>]
     = [\<lparr>move = Nc3xa4, score = 318\<rparr>]"
    by (simp add: goodTacticals_def forkPos_def forkSeeValue_def fork_moves)
  have 3: "\<not> isLegal forkPos WHITE MOVE_NONE" "\<not> inCheck forkPos"
    by (simp_all add: forkPos_def forkTacticals_def forkQuiets_def fork_moves)
  show ?thesis
    using 1 3 sortsByScore_sortDescending
      deferred_capture_among_good_quiets [OF sortsByScore_sortDescending]
    by (simp add: enumerate_def fork_tacticals_MAIN fork_bad_MAIN fork_quietMoves_MAIN 2
        goodQuietsLoop_def badTacticalsLoop_def badQuietsLoop_def logged_apply keepGoing_def)
qed

text \<open>
  Claim C7 (a quiet move gets exactly +10 when the moved piece attacks the enemy
  king from its destination, and nothing otherwise). The \<open>BISHOP\<close> and \<open>ROOK\<close> cases
  of the switch have no \<open>break\<close>, while \<open>PAWN\<close> and \<open>KNIGHT\<close> have one. A rook
  that is not threatened and gives check from its destination, where a queen would
  give check too, gets +20: the bonus of the \<open>ROOK\<close> case and that of the \<open>QUEEN\<close>
  case.
\<close>

theorem scoreQuiet_rook_check_counted_twice:
  assumes "moveType m \<noteq> PROMOTION"
    and "pieceType (getPieceAt pos (moveFrom m)) = ROOK"
    and "threatenedPieces AND bb (moveFrom m) = 0"
    and "attacks ch ROOK (moveTo m) (getPiecesBB pos) AND getPiecesBBof pos (flipSide Me) KING \<noteq> 0"
    and "attacks ch QUEEN (moveTo m) (getPiecesBB pos) AND getPiecesBBof pos (flipSide Me) KING \<noteq> 0"
  shows "scoreQuiet ch Me pos threatenedPieces m
           = toInt16 (NB_PIECE_TYPE ch - pieceTypeIndex ch ROOK + 20)"
  using assms by (simp add: scoreQuiet_def kingHit_def Let_def add.commute)

text \<open>
  In the sample position the checking rook move to e1 gets +20, and the bishop move
  to e3, from where the bishop does not attack the king, gets +20 as well.
\<close>

theorem scoreQuiet_check_bonus_twice:
  "\<forall>base.
     moveType Ra1e1 \<noteq> PROMOTION
     \<and> pieceType (getPieceAt (openFilePos base) (moveFrom Ra1e1)) = ROOK
     \<and> threatenedPiecesOf WHITE (openFilePos base) AND bb (moveFrom Ra1e1) = 0
     \<and> sampleAttacks ROOK (moveTo Ra1e1) (getPiecesBB (openFilePos base))
        AND getPiecesBBof (openFilePos base) BLACK KING \<noteq> 0
     \<and> sampleAttacks QUEEN (moveTo Ra1e1) (getPiecesBB (openFilePos base))
        AND getPiecesBBof (openFilePos base) BLACK KING \<noteq> 0
     \<and> scoreQuiet sampleChess WHITE (openFilePos base)
          (threatenedPiecesOf WHITE (openFilePos base)) Ra1e1
         = NB_PIECE_TYPE sampleChess - pieceTypeIndex sampleChess ROOK + 20
     \<and> sampleAttacks BISHOP (moveTo Bd2e3) (getPiecesBB (openFilePos base))
        AND getPiecesBBof (openFilePos base) BLACK KING = 0
     \<and> scoreQuiet sampleChess WHITE (openFilePos base)
          (threatenedPiecesOf WHITE (openFilePos base)) Bd2e3
         = NB_PIECE_TYPE sampleChess - pieceTypeIndex sampleChess BISHOP + 20"
proof
  fix base
  have h: "moveType Ra1e1 \<noteq> PROMOTION"
    "pieceType (getPieceAt (openFilePos base) (moveFrom Ra1e1)) = ROOK"
    "threatenedPiecesOf WHITE (openFilePos base) AND bb (moveFrom Ra1e1) = 0"
    "attacks sampleChess ROOK (moveTo Ra1e1) (getPiecesBB (openFilePos base))
        AND getPiecesBBof (openFilePos base) (flipSide WHITE) KING \<noteq> 0"
    "attacks sampleChess QUEEN (moveTo Ra1e1) (getPiecesBB (openFilePos base))
        AND getPiecesBBof (openFilePos base) (flipSide WHITE) KING \<noteq> 0"
    by (simp_all add: threatenedPiecesOf_def openFilePos_def Ra1e1_def sample_eval)
  have b: "sampleAttacks BISHOP (moveTo Bd2e3) (getPiecesBB (openFilePos base))
        AND getPiecesBBof (openFilePos base) BLACK KING = 0
     \<and> scoreQuiet sampleChess WHITE (openFilePos base)
          (threatenedPiecesOf WHITE (openFilePos base)) Bd2e3
         = NB_PIECE_TYPE sampleChess - pieceTypeIndex sampleChess BISHOP + 20"
    by (simp add: scoreQuiet_def threatenedPiecesOf_def openFilePos_def Bd2e3_def sample_eval)
  have t: "toInt16 (NB_PIECE_TYPE sampleChess - pieceTypeIndex sampleChess ROOK + 20)
      = NB_PIECE_TYPE sampleChess - pieceTypeIndex sampleChess ROOK + 20"
    by (simp add: sampleChess_def toInt16_def)
  from scoreQuiet_rook_check_counted_twice [OF h] h b t
  show "moveType Ra1e1 \<noteq> PROMOTION
     \<and> pieceType (getPieceAt (openFilePos base) (moveFrom Ra1e1)) = ROOK
     \<and> threatenedPiecesOf WHITE (openFilePos base) AND bb (moveFrom Ra1e1) = 0
     \<and> sampleAttacks ROOK (moveTo Ra1e1) (getPiecesBB (openFilePos base))
        AND getPiecesBBof (openFilePos base) BLACK KING \<noteq> 0
     \<and> sampleAttacks QUEEN (moveTo Ra1e1) (getPiecesBB (openFilePos base))
        AND getPiecesBBof (openFilePos base) BLACK KING \<noteq> 0
     \<and> scoreQuiet sampleChess WHITE (openFilePos base)
          (threatenedPiecesOf WHITE (openFilePos base)) Ra1e1
         = NB_PIECE_TYPE sampleChess - pieceTypeIndex sampleChess ROOK + 20
     \<and> sampleAttacks BISHOP (moveTo Bd2e3) (getPiecesBB (openFilePos base))
        AND getPiecesBBof (openFilePos base) BLACK KING = 0
     \<and> scoreQuiet sampleChess WHITE (openFilePos base)
          (threatenedPiecesOf WHITE (openFilePos base)) Bd2e3
         = NB_PIECE_TYPE sampleChess - pieceTypeIndex sampleChess BISHOP + 20"
    by (simp add: sampleChess_def)
qed

end
